theory Spec2Isabelle
  imports Main
begin

section \<open>The SEO link analyzer (seo\_link\_analyzer.py)\<close>

text \<open>
  The program crawls a site from a seed URL, records (link, parent) edges, probes every
  edge for broken links, reads the sitemaps and extracts metadata for every page found.
  The network and the libraries it calls (requests, BeautifulSoup, urllib.parse, json) are
  not part of the source. They enter the model as a \<open>world\<close>: what a GET of a URL
  answers, how a reference is joined to a base URL and how a URL splits into network
  location and path. A document is carried by what the parser finds in it. A GET of the
  same URL answers the same thing during one run. Printing is not modelled.

  An exception of the source is a value: a function that can raise returns
  \<open>py_error + 'a\<close>, and every \<open>try\<close> of the source is a case distinction on it.
  \<open>urljoin\<close> and \<open>urlparse\<close> are taken as total (the ValueError they raise on a
  malformed bracketed host is left out). Strings are lists of characters, so \<open>len\<close>
  is \<open>length\<close>.
\<close>

subsection \<open>Data\<close>

type_synonym url = string

text \<open>A decoded JSON value. Numbers are integers; JSON floats are left out.\<close>

datatype json =
    JNull
  | JBool bool
  | JInt int
  | JStr string
  | JList "json list"
  | JDict "(string \<times> json) list"

text \<open>
  A \<open>script type="application/ld+json"\<close> element: \<open>script.string\<close> is None, or text
  that \<open>json.loads\<close> rejects, or text that it decodes.
\<close>

datatype script = NoString | Malformed | Parsed json

text \<open>
  An \<open>li\<close> of the breadcrumb container: with a link inside (its stripped text and its
  href attribute, if any), or without (its own stripped text).
\<close>

datatype li = LiLink string "string option" | LiText string

record document =
  a_hrefs :: "string list"
  title_tag :: "string option"
  meta_description_tag :: "string option option"
  h1_tag :: "string option"
  canonical_link_tag :: "string option option"
  json_ld_scripts :: "script list"
  breadcrumb_container :: "li list option"
  url_locs :: "string option list"

text \<open>
  \<open>a_hrefs\<close>: the href of every \<open>a\<close> element that has one, in document order.
  \<open>meta_description_tag\<close> and \<open>canonical_link_tag\<close>: the first such element, if
  any, with its content (href) attribute, if any. \<open>breadcrumb_container\<close>: the items of
  the first \<open>nav aria-label="breadcrumb"\<close>, else of the first \<open>ul class="breadcrumb"\<close>.
  \<open>url_locs\<close>: read as XML, the text of the first \<open>loc\<close> of every \<open>url\<close> element.
\<close>

datatype response = ConnError string | Response int document

datatype py_error = RequestException string | AttributeError | KeyError | TypeError

record world =
  http_get :: "url \<Rightarrow> response"
  urljoin :: "url \<Rightarrow> string \<Rightarrow> url"
  netloc :: "url \<Rightarrow> string"
  urlpath :: "url \<Rightarrow> string"
  container_str :: "json \<Rightarrow> string"

text \<open>
  \<open>http_get\<close> is \<open>requests.get\<close>: a transport failure with its message, or the final
  status code and the parsed body. \<open>netloc\<close> and \<open>urlpath\<close> are the two fields read
  from \<open>urlparse\<close>. \<open>container_str\<close> is Python's \<open>str\<close> of a list or a dict.
\<close>

type_synonym edge = "url \<times> url"

datatype status = StatusCode int | RequestError string

type_synonym broken_link = "url \<times> url \<times> status"

subsection \<open>The crawl engine: extract\_clickable\_links\_recursive\<close>

text \<open>
  The state of one crawl: the shared \<open>visited\<close> set, and the log of the GETs the
  traversal has made, latest first (the log is not in the source: it counts the calls).
\<close>

record crawl_state =
  visited :: "url set"
  fetched :: "url list"

text \<open>The loop over the \<open>a\<close> elements of one page (lines 45 to 59).\<close>

fun extract_links :: "world \<Rightarrow> url \<Rightarrow> url set \<Rightarrow> string list \<Rightarrow> edge list" where
  "extract_links W base_url vis [] = []"
| "extract_links W base_url vis (href # rest) =
     (if CHR ''#'' \<in> set href then extract_links W base_url vis rest
      else
        let full_link = urljoin W base_url href;
            link_domain = netloc W full_link
        in if link_domain = netloc W base_url \<and> full_link \<notin> vis
           then (full_link, base_url) # extract_links W base_url vis rest
           else extract_links W base_url vis rest)"

text \<open>
  The function itself, and the loop that recurses into the links of a page (lines 63 to
  65), which hands the visited set from one call to the next.
\<close>

function extract_clickable_links_recursive ::
    "world \<Rightarrow> url \<Rightarrow> int \<Rightarrow> crawl_state \<Rightarrow> edge list \<times> crawl_state"
  and expand_links ::
    "world \<Rightarrow> edge list \<Rightarrow> int \<Rightarrow> crawl_state \<Rightarrow> edge list \<times> crawl_state"
where
  "extract_clickable_links_recursive W base_url max_depth st =
     (if base_url \<in> visited st then ([], st)
      else
        let st1 = st\<lparr>visited := insert base_url (visited st), fetched := base_url # fetched st\<rparr>
        in case http_get W base_url of
             ConnError e \<Rightarrow> ([], st1)
           | Response status_code soup \<Rightarrow>
               if status_code \<noteq> 200 then ([], st1)
               else
                 let links = extract_links W base_url (visited st1) (a_hrefs soup)
                 in if max_depth > 0
                    then (case expand_links W links (max_depth - 1) st1 of
                            (more_links, st2) \<Rightarrow> (links @ more_links, st2))
                    else (links, st1))"
| "expand_links W [] depth st = ([], st)"
| "expand_links W (e # rest) depth st =
     (case extract_clickable_links_recursive W (fst e) depth st of
        (more_links, st1) \<Rightarrow>
          (case expand_links W rest depth st1 of
             (others, st2) \<Rightarrow> (more_links @ others, st2)))"
  by pat_completeness auto

termination
  by (relation "measures [
        (\<lambda>x. case x of Inl (W, u, d, st) \<Rightarrow> 2 * nat d | Inr (W, es, d, st) \<Rightarrow> 2 * nat d + 1),
        (\<lambda>x. case x of Inl (W, u, d, st) \<Rightarrow> 0 | Inr (W, es, d, st) \<Rightarrow> Suc (length es))]")
     auto

definition crawl :: "world \<Rightarrow> url \<Rightarrow> int \<Rightarrow> edge list \<times> crawl_state" where
  "crawl W seed max_depth =
     extract_clickable_links_recursive W seed max_depth \<lparr>visited = {}, fetched = []\<rparr>"

subsection \<open>The link validator: check\_for\_error\_links\<close>

fun check_for_error_links :: "world \<Rightarrow> edge list \<Rightarrow> broken_link list" where
  "check_for_error_links W [] = []"
| "check_for_error_links W ((link, parent_url) # rest) =
     (case http_get W link of
        Response status_code soup \<Rightarrow>
          if status_code = 404
          then (link, parent_url, StatusCode 404) # check_for_error_links W rest
          else if status_code \<noteq> 200
          then (link, parent_url, StatusCode status_code) # check_for_error_links W rest
          else check_for_error_links W rest
      | ConnError e \<Rightarrow>
          (link, parent_url, RequestError (''Request error: '' @ e))
            # check_for_error_links W rest)"

subsection \<open>The sitemap resolver: get\_sitemap\_urls\<close>

definition sitemap_paths :: "string list" where
  "sitemap_paths = [''/sitemap.xml'', ''/en/sitemap.xml'', ''/es/sitemap.xml'']"

text \<open>
  The loop over the \<open>url\<close> elements of one sitemap (lines 160 to 163). \<open>url.loc\<close> is
  None for a \<open>url\<close> without a \<open>loc\<close>, and \<open>get_text\<close> on it raises.
\<close>

fun sitemap_doc_urls :: "world \<Rightarrow> url \<Rightarrow> string option list \<Rightarrow> url set \<Rightarrow> py_error + url set" where
  "sitemap_doc_urls W base_url [] urls = Inr urls"
| "sitemap_doc_urls W base_url (None # rest) urls = Inl AttributeError"
| "sitemap_doc_urls W base_url (Some loc # rest) urls =
     sitemap_doc_urls W base_url rest (insert (urljoin W base_url loc) urls)"

text \<open>The loop over the sitemap locations (lines 147 to 169).\<close>

fun probe_sitemaps :: "world \<Rightarrow> url \<Rightarrow> string list \<Rightarrow> url set \<Rightarrow> py_error + url set" where
  "probe_sitemaps W base_url [] all_urls = Inr all_urls"
| "probe_sitemaps W base_url (sitemap_path # rest) all_urls =
     (case http_get W (urljoin W base_url sitemap_path) of
        ConnError e \<Rightarrow> probe_sitemaps W base_url rest all_urls
      | Response status_code soup \<Rightarrow>
          if status_code \<noteq> 200 then probe_sitemaps W base_url rest all_urls
          else (case sitemap_doc_urls W base_url (url_locs soup) {} of
                  Inl err \<Rightarrow> Inl err
                | Inr urls \<Rightarrow> probe_sitemaps W base_url rest (all_urls \<union> urls)))"

definition get_sitemap_urls :: "world \<Rightarrow> url \<Rightarrow> py_error + url set" where
  "get_sitemap_urls W base_url = probe_sitemaps W base_url sitemap_paths {}"

subsection \<open>The metadata extractor: get\_meta\_data\<close>

text \<open>Python's \<open>str\<close> of the values an f-string formats.\<close>

function str_nat :: "nat \<Rightarrow> string" where
  "str_nat n =
     (if n < 10 then [''0123456789'' ! n]
      else str_nat (n div 10) @ [''0123456789'' ! (n mod 10)])"
  by pat_completeness auto

termination
  by (relation "measure id") auto

declare str_nat.simps [simp del]

definition str_int :: "int \<Rightarrow> string" where
  "str_int i = (if i < 0 then CHR ''-'' # str_nat (nat (- i)) else str_nat (nat i))"

fun py_str :: "world \<Rightarrow> json \<Rightarrow> string" where
  "py_str W JNull = ''None''"
| "py_str W (JBool b) = (if b then ''True'' else ''False'')"
| "py_str W (JInt i) = str_int i"
| "py_str W (JStr s) = s"
| "py_str W v = container_str W v"

text \<open>\<open>d.get(k)\<close> on a decoded object: of a repeated key, \<open>json.loads\<close> keeps the last.\<close>

definition dict_get :: "(string \<times> json) list \<Rightarrow> string \<Rightarrow> json" where
  "dict_get kvs k = (case map_of (rev kvs) k of None \<Rightarrow> JNull | Some v \<Rightarrow> v)"

fun join :: "string \<Rightarrow> string list \<Rightarrow> string" where
  "join sep [] = []"
| "join sep [x] = x"
| "join sep (x # y # ys) = x @ sep @ join sep (y # ys)"

text \<open>The body of the loop over the items of a BreadcrumbList (lines 109 to 113).\<close>

definition item_crumb :: "world \<Rightarrow> (string \<times> json) list \<Rightarrow> string" where
  "item_crumb W item =
     (let position = dict_get item ''position'';
          name = dict_get item ''name'';
          url = dict_get item ''item''
      in py_str W position @ '': '' @ py_str W name @ '' ('' @ py_str W url @ '')'')"

fun item_crumbs :: "world \<Rightarrow> json list \<Rightarrow> py_error + string list" where
  "item_crumbs W [] = Inr []"
| "item_crumbs W (JDict item # rest) =
     (case item_crumbs W rest of
        Inl err \<Rightarrow> Inl err
      | Inr crumbs \<Rightarrow> Inr (item_crumb W item # crumbs))"
| "item_crumbs W (v # rest) = Inl AttributeError"

text \<open>
  \<open>for item in json_ld_data["itemListElement"]\<close>: a list gives its elements; a dict gives
  its keys and a string its characters, which have no \<open>get\<close>; anything else is not
  iterable.
\<close>

fun iterate_items :: "world \<Rightarrow> json \<Rightarrow> py_error + string list" where
  "iterate_items W (JList items) = item_crumbs W items"
| "iterate_items W (JDict kvs) = (if kvs = [] then Inr [] else Inl AttributeError)"
| "iterate_items W (JStr s) = (if s = [] then Inr [] else Inl AttributeError)"
| "iterate_items W v = Inl TypeError"

text \<open>The body of the loop over the scripts (lines 104 to 115): only JSONDecodeError is caught.\<close>

fun script_crumbs :: "world \<Rightarrow> script \<Rightarrow> py_error + string list" where
  "script_crumbs W NoString = Inl TypeError"
| "script_crumbs W Malformed = Inr []"
| "script_crumbs W (Parsed (JDict json_ld_data)) =
     (if dict_get json_ld_data ''@type'' = JStr ''BreadcrumbList''
      then (case map_of (rev json_ld_data) ''itemListElement'' of
              None \<Rightarrow> Inl KeyError
            | Some v \<Rightarrow> iterate_items W v)
      else Inr [])"
| "script_crumbs W (Parsed v) = Inl AttributeError"

fun json_ld_crumbs :: "world \<Rightarrow> script list \<Rightarrow> py_error + string list" where
  "json_ld_crumbs W [] = Inr []"
| "json_ld_crumbs W (s # rest) =
     (case script_crumbs W s of
        Inl err \<Rightarrow> Inl err
      | Inr crumbs \<Rightarrow>
          (case json_ld_crumbs W rest of
             Inl err \<Rightarrow> Inl err
           | Inr others \<Rightarrow> Inr (crumbs @ others)))"

text \<open>The fallback loop over the \<open>li\<close> items, numbered from \<open>index\<close> (lines 123 to 132).\<close>

fun html_crumbs :: "nat \<Rightarrow> li list \<Rightarrow> string list" where
  "html_crumbs index [] = []"
| "html_crumbs index (item # rest) =
     (let (breadcrumb_name, breadcrumb_url) =
            (case item of LiLink name href \<Rightarrow> (name, href) | LiText name \<Rightarrow> (name, None))
      in (str_nat index @ '': '' @ breadcrumb_name @ '' (''
            @ (case breadcrumb_url of
                 None \<Rightarrow> ''No URL''
               | Some u \<Rightarrow> if u = [] then ''No URL'' else u)
            @ '')'')
         # html_crumbs (Suc index) rest)"

type_synonym meta_data =
  "string option \<times> nat \<times> string option \<times> nat \<times> string option \<times> string option \<times> string option"

definition py_len :: "string option \<Rightarrow> nat" where
  "py_len s = (case s of None \<Rightarrow> 0 | Some t \<Rightarrow> length t)"

definition get_meta_data :: "world \<Rightarrow> url \<Rightarrow> py_error + meta_data" where
  "get_meta_data W link =
     (case http_get W link of
        ConnError e \<Rightarrow> Inl (RequestException e)
      | Response status_code soup \<Rightarrow>
          let title = title_tag soup;
              title_length = py_len title;
              meta_description =
                (case meta_description_tag soup of None \<Rightarrow> None | Some content \<Rightarrow> content);
              meta_description_length = py_len meta_description;
              h1_title = h1_tag soup;
              canonical_url =
                (case canonical_link_tag soup of None \<Rightarrow> None | Some href \<Rightarrow> href)
          in (case json_ld_crumbs W (json_ld_scripts soup) of
                Inl err \<Rightarrow> Inl err
              | Inr crumbs1 \<Rightarrow>
                  let crumbs =
                        (if crumbs1 = []
                         then (case breadcrumb_container soup of
                                 Some breadcrumb_items \<Rightarrow> html_crumbs 1 breadcrumb_items
                               | None \<Rightarrow> [])
                         else crumbs1);
                      breadcrumbs_text = (if crumbs \<noteq> [] then Some (join '' > '' crumbs) else None)
                  in Inr (title, title_length, meta_description, meta_description_length,
                          h1_title, canonical_url, breadcrumbs_text)))"

subsection \<open>The report: scan\_and\_check\_links\<close>

record page_metadata =
  link :: url
  title :: "string option"
  title_length :: nat
  meta_description :: "string option"
  meta_description_length :: nat
  h1_title :: "string option"
  canonical_url :: "string option"
  breadcrumbs :: "string option"
  in_sitemap :: bool

datatype outcome = ErrorMessage string | Report "page_metadata list" "broken_link list"

text \<open>One value of the \<open>results\<close> dict (lines 220 to 230 and 237 to 247).\<close>

definition make_entry :: "world \<Rightarrow> string set \<Rightarrow> url \<Rightarrow> meta_data \<Rightarrow> page_metadata" where
  "make_entry W sitemap_relative_paths u md =
     (case md of (t, t_len, d, d_len, h, c, b) \<Rightarrow>
        \<lparr>link = u, title = t, title_length = t_len, meta_description = d,
         meta_description_length = d_len, h1_title = h, canonical_url = c, breadcrumbs = b,
         in_sitemap = (urlpath W u \<in> sitemap_relative_paths)\<rparr>)"

text \<open>
  The \<open>results\<close> dict in insertion order, and the log of the calls of
  \<open>get_meta_data\<close>, latest first (the log is not in the source: it counts the calls).
\<close>

record report_state =
  results :: "(url \<times> page_metadata) list"
  extracted :: "url list"

text \<open>The loop over the edges (lines 232 to 247).\<close>

fun add_link_results ::
  "world \<Rightarrow> string set \<Rightarrow> edge list \<Rightarrow> report_state \<Rightarrow> py_error + report_state" where
  "add_link_results W sitemap_relative_paths [] rs = Inr rs"
| "add_link_results W sitemap_relative_paths (link_tuple # rest) rs =
     (let u = fst link_tuple
      in if u \<notin> fst ` set (results rs)
         then (case get_meta_data W u of
                 Inl err \<Rightarrow> Inl err
               | Inr md \<Rightarrow>
                   add_link_results W sitemap_relative_paths rest
                     (rs\<lparr>results := results rs @ [(u, make_entry W sitemap_relative_paths u md)],
                         extracted := u # extracted rs\<rparr>))
         else add_link_results W sitemap_relative_paths rest rs)"

text \<open>Lines 216 to 247: the entry of the seed, then the loop.\<close>

definition assemble_results ::
  "world \<Rightarrow> url \<Rightarrow> edge list \<Rightarrow> string set \<Rightarrow> py_error + report_state" where
  "assemble_results W u clickable_links sitemap_relative_paths =
     (case get_meta_data W u of
        Inl err \<Rightarrow> Inl err
      | Inr md \<Rightarrow>
          add_link_results W sitemap_relative_paths clickable_links
            \<lparr>results = [(u, make_entry W sitemap_relative_paths u md)], extracted = [u]\<rparr>)"

text \<open>
  The \<open>except\<close> of \<open>scan_and_check_links\<close>: a RequestException becomes the returned
  message, any other exception leaves the function.
\<close>

fun on_exception :: "py_error \<Rightarrow> py_error + outcome" where
  "on_exception (RequestException e) = Inr (ErrorMessage (''Error: '' @ e))"
| "on_exception err = Inl err"

definition scan_and_check_links :: "world \<Rightarrow> url \<Rightarrow> int \<Rightarrow> py_error + outcome" where
  "scan_and_check_links W u max_depth =
     (case http_get W u of
        ConnError e \<Rightarrow> on_exception (RequestException e)
      | Response status_code soup \<Rightarrow>
          if status_code \<noteq> 200 then Inr (ErrorMessage (''Error: Unable to access '' @ u))
          else
            let clickable_links = fst (crawl W u max_depth);
                broken_links = check_for_error_links W clickable_links
            in (case get_sitemap_urls W u of
                  Inl err \<Rightarrow> on_exception err
                | Inr sitemap_urls \<Rightarrow>
                    let sitemap_relative_paths = urlpath W ` sitemap_urls
                    in (case assemble_results W u clickable_links sitemap_relative_paths of
                          Inl err \<Rightarrow> on_exception err
                        | Inr rs \<Rightarrow> Inr (Report (map snd (results rs)) broken_links))))"

subsection \<open>An example site\<close>

text \<open>
  A small site on host \<open>x\<close>, for evaluating the functions. The seed page links page a
  twice, page b, itself, a fragment and another host; page a links back to the seed and to
  b (a cycle); b answers 404. With \<open>down = True\<close> page a also links page c, which does not
  answer at all. With \<open>maps = True\<close> the first sitemap location lists a and the second is
  missing; otherwise none of the three answers 200.
  The three URL functions are exact on the URLs of this site only.
\<close>

definition ex_urljoin :: "url \<Rightarrow> string \<Rightarrow> url" where
  "ex_urljoin base ref = (if take 7 ref = ''http://'' then ref else ''http://x'' @ ref)"

definition ex_netloc :: "url \<Rightarrow> string" where
  "ex_netloc u = takeWhile (\<lambda>c. c \<noteq> CHR ''/'') (drop 7 u)"

definition ex_urlpath :: "url \<Rightarrow> string" where
  "ex_urlpath u = dropWhile (\<lambda>c. c \<noteq> CHR ''/'') (drop 7 u)"

definition empty_doc :: document where
  "empty_doc =
     \<lparr>a_hrefs = [], title_tag = None, meta_description_tag = None, h1_tag = None,
      canonical_link_tag = None, json_ld_scripts = [], breadcrumb_container = None,
      url_locs = []\<rparr>"

definition ex_get :: "bool \<Rightarrow> bool \<Rightarrow> url \<Rightarrow> response" where
  "ex_get down maps u =
     (if u = ''http://x/'' then
        Response 200 (empty_doc\<lparr>a_hrefs := [''/a'', ''/a'', ''/b'', ''/'', ''#top'', ''http://y/z''],
                                title_tag := Some ''Home''\<rparr>)
      else if u = ''http://x/a'' then
        Response 200 (empty_doc\<lparr>a_hrefs := (if down then [''/'', ''/b'', ''/c''] else [''/'', ''/b'']),
                                title_tag := Some ''A'', h1_tag := Some ''Page A''\<rparr>)
      else if u = ''http://x/b'' then Response 404 empty_doc
      else if u = ''http://x/sitemap.xml'' then
        (if maps then Response 200 (empty_doc\<lparr>url_locs := [Some ''/a'']\<rparr>)
         else Response 500 empty_doc)
      else if u = ''http://x/en/sitemap.xml'' then Response 404 empty_doc
      else ConnError ''no route'')"

definition ex_site :: "bool \<Rightarrow> bool \<Rightarrow> world" where
  "ex_site down maps =
     \<lparr>http_get = ex_get down maps, urljoin = ex_urljoin, netloc = ex_netloc,
      urlpath = ex_urlpath, container_str = (\<lambda>v. ''?'')\<rparr>"

text \<open>The same site with the seed not answering.\<close>

definition seed_down :: "world \<Rightarrow> world" where
  "seed_down W = W\<lparr>http_get := (http_get W)(''http://x/'' := ConnError ''down'')\<rparr>"

text \<open>A site whose every page holds the given structured-data scripts and nothing else.\<close>

definition crumb_site :: "script list \<Rightarrow> world" where
  "crumb_site scripts =
     \<lparr>http_get = (\<lambda>u. Response 200 (empty_doc\<lparr>json_ld_scripts := scripts\<rparr>)),
      urljoin = ex_urljoin, netloc = ex_netloc, urlpath = ex_urlpath,
      container_str = (\<lambda>v. ''?'')\<rparr>"

definition crumb_item :: "int \<Rightarrow> string \<Rightarrow> string \<Rightarrow> (string \<times> json) list" where
  "crumb_item position name u =
     [(''@type'', JStr ''ListItem''), (''position'', JInt position), (''name'', JStr name),
      (''item'', JStr u)]"

definition breadcrumb_list :: "(string \<times> json) list list \<Rightarrow> script" where
  "breadcrumb_list items =
     Parsed (JDict [(''@context'', JStr ''https://schema.org''),
                    (''@type'', JStr ''BreadcrumbList''),
                    (''itemListElement'', JList (map JDict items))])"

subsection \<open>Notions used to state the properties\<close>

text \<open>
  The state after a call has marked \<open>u\<close> visited and fetched it, and the edges the call
  records from the page it got.
\<close>

definition enter :: "url \<Rightarrow> crawl_state \<Rightarrow> crawl_state" where
  "enter u st = st\<lparr>visited := insert u (visited st), fetched := u # fetched st\<rparr>"

definition page_links :: "world \<Rightarrow> url \<Rightarrow> crawl_state \<Rightarrow> document \<Rightarrow> edge list" where
  "page_links W u st doc = extract_links W u (insert u (visited st)) (a_hrefs doc)"

text \<open>The log agrees with the visited set: every visited URL was fetched exactly once.\<close>

definition log_ok :: "crawl_state \<Rightarrow> bool" where
  "log_ok st = (distinct (fetched st) \<and> set (fetched st) = visited st)"

text \<open>
  The URLs reachable from the seed: the seed, and every fragment-free link of a page that
  answers 200 which resolves to the network location of that page.
\<close>

inductive_set reachable :: "world \<Rightarrow> url \<Rightarrow> url set" for W :: world and seed :: url where
  seed: "seed \<in> reachable W seed"
| link: "u \<in> reachable W seed \<Longrightarrow> http_get W u = Response 200 doc \<Longrightarrow>
         h \<in> set (a_hrefs doc) \<Longrightarrow> CHR ''#'' \<notin> set h \<Longrightarrow>
         netloc W (urljoin W u h) = netloc W u \<Longrightarrow> urljoin W u h \<in> reachable W seed"

text \<open>An edge that is a hyperlink of its parent: the parent answers 200 and holds it.\<close>

definition from_page :: "world \<Rightarrow> edge \<Rightarrow> bool" where
  "from_page W e =
     (\<exists>doc h. http_get W (snd e) = Response 200 doc \<and> h \<in> set (a_hrefs doc) \<and>
        CHR ''#'' \<notin> set h \<and> fst e = urljoin W (snd e) h \<and>
        netloc W (fst e) = netloc W (snd e))"

text \<open>
  The link validator as the specification words it: the record of one edge, if its target
  is broken. Any status other than 200 is recorded with its code (404 among them), a
  transport failure with a diagnostic message, and status 200 gives no record.
\<close>

definition broken_record :: "world \<Rightarrow> edge \<Rightarrow> broken_link option" where
  "broken_record W e =
     (case http_get W (fst e) of
        ConnError msg \<Rightarrow> Some (fst e, snd e, RequestError (''Request error: '' @ msg))
      | Response code doc \<Rightarrow>
          if code = 200 then None else Some (fst e, snd e, StatusCode code))"

text \<open>
  The paths the sitemaps declare: of every location of every probe that answers 200,
  resolved against the seed, the path.
\<close>

definition declared_paths :: "world \<Rightarrow> url \<Rightarrow> string set" where
  "declared_paths W u =
     {urlpath W (urljoin W u loc) | sp doc loc.
        sp \<in> set sitemap_paths \<and> http_get W (urljoin W u sp) = Response 200 doc \<and>
        Some loc \<in> set (url_locs doc)}"

definition all_probes_fail :: "world \<Rightarrow> url \<Rightarrow> bool" where
  "all_probes_fail W u =
     (\<forall>sp \<in> set sitemap_paths. \<forall>doc. http_get W (urljoin W u sp) \<noteq> Response 200 doc)"

text \<open>
  A script that is a valid BreadcrumbList with the given items: an object of that type
  whose \<open>itemListElement\<close> is the list of these objects.
\<close>

definition holds_items :: "script \<Rightarrow> (string \<times> json) list list \<Rightarrow> bool" where
  "holds_items s items =
     (\<exists>blk. s = Parsed (JDict blk) \<and> dict_get blk ''@type'' = JStr ''BreadcrumbList'' \<and>
        map_of (rev blk) ''itemListElement'' = Some (JList (map JDict items)))"

text \<open>
  A script that the extractor skips: text that does not decode, or an object of another
  type. And what a script of a page gives to the trail: the items of a valid
  BreadcrumbList, nothing for a script that is skipped.
\<close>

definition skipped :: "script \<Rightarrow> bool" where
  "skipped s =
     (s = Malformed \<or>
      (\<exists>blk. s = Parsed (JDict blk) \<and> dict_get blk ''@type'' \<noteq> JStr ''BreadcrumbList''))"

definition contributes :: "script \<Rightarrow> (string \<times> json) list list \<Rightarrow> bool" where
  "contributes s items = (holds_items s items \<or> (skipped s \<and> items = []))"

text \<open>The breadcrumb trail of an extraction.\<close>

definition trail :: "py_error + meta_data \<Rightarrow> string option" where
  "trail r = (case r of Inl err \<Rightarrow> None | Inr (t, t_len, d, d_len, h, c, b) \<Rightarrow> b)"

text \<open>An entry of the report that carries its own URL and the sitemap test of that URL.\<close>

definition entry_ok :: "world \<Rightarrow> string set \<Rightarrow> url \<times> page_metadata \<Rightarrow> bool" where
  "entry_ok W paths e =
     (link (snd e) = fst e \<and> in_sitemap (snd e) = (urlpath W (fst e) \<in> paths))"

section \<open>Properties of the crawl engine\<close>

declare extract_clickable_links_recursive.simps [simp del]

lemma extract_links_eq:
  "extract_links W b vis hs =
     map (\<lambda>h. (urljoin W b h, b))
       (filter (\<lambda>h. CHR ''#'' \<notin> set h \<and> netloc W (urljoin W b h) = netloc W b \<and>
                  urljoin W b h \<notin> vis) hs)"
  by (induction hs) (auto simp: Let_def)

lemma visited_enter [simp]: "visited (enter u st) = insert u (visited st)"
  by (simp add: enter_def)

lemma fetched_enter [simp]: "fetched (enter u st) = u # fetched st"
  by (simp add: enter_def)

lemma set_page_links:
  "set (page_links W u st doc) =
     {(urljoin W u h, u) | h. h \<in> set (a_hrefs doc) \<and> CHR ''#'' \<notin> set h \<and>
        netloc W (urljoin W u h) = netloc W u \<and> urljoin W u h \<noteq> u \<and>
        urljoin W u h \<notin> visited st}"
  by (auto simp: page_links_def extract_links_eq)

text \<open>The four ways a call ends, and the step of the loop.\<close>

lemma crawl_seen: "u \<in> visited st \<Longrightarrow> extract_clickable_links_recursive W u d st = ([], st)"
  by (subst extract_clickable_links_recursive.simps) simp

lemma crawl_failed:
  "u \<notin> visited st \<Longrightarrow> \<forall>doc. http_get W u \<noteq> Response 200 doc \<Longrightarrow>
   extract_clickable_links_recursive W u d st = ([], enter u st)"
  by (subst extract_clickable_links_recursive.simps)
     (simp add: Let_def enter_def split: response.splits)

lemma crawl_leaf:
  "u \<notin> visited st \<Longrightarrow> http_get W u = Response 200 doc \<Longrightarrow> \<not> 0 < d \<Longrightarrow>
   extract_clickable_links_recursive W u d st = (page_links W u st doc, enter u st)"
  by (subst extract_clickable_links_recursive.simps)
     (simp add: Let_def enter_def page_links_def)

lemma crawl_expand:
  "u \<notin> visited st \<Longrightarrow> http_get W u = Response 200 doc \<Longrightarrow> 0 < d \<Longrightarrow>
   extract_clickable_links_recursive W u d st =
     (page_links W u st doc @ fst (expand_links W (page_links W u st doc) (d - 1) (enter u st)),
      snd (expand_links W (page_links W u st doc) (d - 1) (enter u st)))"
  by (subst extract_clickable_links_recursive.simps)
     (simp add: Let_def enter_def page_links_def split: prod.splits)

text \<open>
  Induction along the calls: a property \<open>P\<close> of a call and a property \<open>Q\<close> of the loop
  hold of every result once they pass through the four ways a call ends and the two
  cases of the loop.
\<close>

lemma crawl_induct:
  assumes seen: "\<And>W u d st. u \<in> visited st \<Longrightarrow> P W u d st ([], st)"
    and failed: "\<And>W u d st. u \<notin> visited st \<Longrightarrow> \<forall>doc. http_get W u \<noteq> Response 200 doc \<Longrightarrow>
                   P W u d st ([], enter u st)"
    and leaf: "\<And>W u d st doc. u \<notin> visited st \<Longrightarrow> http_get W u = Response 200 doc \<Longrightarrow>
                   \<not> 0 < d \<Longrightarrow> P W u d st (page_links W u st doc, enter u st)"
    and expand: "\<And>W u d st doc others st'. u \<notin> visited st \<Longrightarrow>
                   http_get W u = Response 200 doc \<Longrightarrow> 0 < d \<Longrightarrow>
                   expand_links W (page_links W u st doc) (d - 1) (enter u st) = (others, st') \<Longrightarrow>
                   Q W (page_links W u st doc) (d - 1) (enter u st) (others, st') \<Longrightarrow>
                   P W u d st (page_links W u st doc @ others, st')"
    and nil: "\<And>W d st. Q W [] d st ([], st)"
    and cons: "\<And>W e rest d st es1 st1 es2 st2.
                   extract_clickable_links_recursive W (fst e) d st = (es1, st1) \<Longrightarrow>
                   P W (fst e) d st (es1, st1) \<Longrightarrow>
                   expand_links W rest d st1 = (es2, st2) \<Longrightarrow>
                   Q W rest d st1 (es2, st2) \<Longrightarrow>
                   Q W (e # rest) d st (es1 @ es2, st2)"
  shows "P W u d st (extract_clickable_links_recursive W u d st) \<and>
         Q W ls d' st' (expand_links W ls d' st')"
proof -
  have "P W u d st (extract_clickable_links_recursive W u d st)"
    and "Q W ls d' st' (expand_links W ls d' st')"
  proof (induction W u d st and W ls d' st'
           rule: extract_clickable_links_recursive_expand_links.induct)
    case (1 W base_url max_depth st)
    show ?case
    proof (cases "base_url \<in> visited st")
      case True
      then show ?thesis by (simp add: crawl_seen seen)
    next
      case unseen: False
      show ?thesis
      proof (cases "\<exists>doc. http_get W base_url = Response 200 doc")
        case False
        then show ?thesis using unseen by (simp add: crawl_failed failed)
      next
        case True
        then obtain doc where doc: "http_get W base_url = Response 200 doc" ..
        let ?links = "page_links W base_url st doc"
        let ?loop = "expand_links W ?links (max_depth - 1) (enter base_url st)"
        show ?thesis
        proof (cases "0 < max_depth")
          case False
          then show ?thesis using unseen doc by (simp add: crawl_leaf leaf)
        next
          case True
          have "Q W ?links (max_depth - 1) (enter base_url st) ?loop"
            using "1.IH" [OF unseen refl doc _ refl True] by (simp add: page_links_def enter_def)
          then show ?thesis
            using expand [OF unseen doc True, of "fst ?loop" "snd ?loop"]
            by (simp add: crawl_expand [OF unseen doc True])
        qed
      qed
    qed
  next
    case (2 W depth st)
    show ?case by (simp add: nil)
  next
    case (3 W e rest depth st)
    obtain es1 st1 where c: "extract_clickable_links_recursive W (fst e) depth st = (es1, st1)"
      by (cases "extract_clickable_links_recursive W (fst e) depth st")
    obtain es2 st2 where x: "expand_links W rest depth st1 = (es2, st2)"
      by (cases "expand_links W rest depth st1")
    show ?case
      using cons [OF c _ x] "3.IH"(1) "3.IH"(2) [OF c [symmetric]] c x by simp
  qed
  then show ?thesis by simp
qed

text \<open>The visited set only grows.\<close>

lemma visited_grows:
  "visited st \<subseteq> visited (snd (extract_clickable_links_recursive W u d st)) \<and>
   visited st' \<subseteq> visited (snd (expand_links W ls d' st'))"
  by (rule crawl_induct
        [where P = "\<lambda>W u d st r. visited st \<subseteq> visited (snd r)"
           and Q = "\<lambda>W ls d st r. visited st \<subseteq> visited (snd r)"])
     auto

text \<open>No edge leads to a URL that was visited when the call began, nor to the page of the call.\<close>

lemma targets_fresh:
  "(\<forall>e \<in> set (fst (extract_clickable_links_recursive W u d st)).
      fst e \<noteq> u \<and> fst e \<notin> visited st) \<and>
   (\<forall>e \<in> set (fst (expand_links W ls d' st')). fst e \<notin> visited st')"
proof (rule crawl_induct
        [where P = "\<lambda>W u d st r. \<forall>e \<in> set (fst r). fst e \<noteq> u \<and> fst e \<notin> visited st"
           and Q = "\<lambda>W ls d st r. \<forall>e \<in> set (fst r). fst e \<notin> visited st"])
  fix W and e :: edge and rest :: "edge list" and d st st1 and es1 es2 :: "edge list"
    and st2 :: crawl_state
  assume "extract_clickable_links_recursive W (fst e) d st = (es1, st1)"
    and "\<forall>x \<in> set (fst (es1, st1)). fst x \<noteq> fst e \<and> fst x \<notin> visited st"
    and "\<forall>x \<in> set (fst (es2, st2)). fst x \<notin> visited st1"
  moreover have "visited st \<subseteq> visited (snd (extract_clickable_links_recursive W (fst e) d st))"
    using visited_grows by blast
  ultimately show "\<forall>x \<in> set (fst (es1 @ es2, st2)). fst x \<notin> visited st"
    by auto
qed (auto simp: set_page_links)

text \<open>
  Every edge of a call has the network location of the page of the call, on both ends;
  every edge of the loop has the network location of one of the links the loop was given.
\<close>

lemma same_netloc:
  "(\<forall>e \<in> set (fst (extract_clickable_links_recursive W u d st)).
      netloc W (fst e) = netloc W u \<and> netloc W (snd e) = netloc W u) \<and>
   (\<forall>e \<in> set (fst (expand_links W ls d' st')).
      \<exists>l \<in> set ls. netloc W (fst e) = netloc W (fst l) \<and> netloc W (snd e) = netloc W (fst l))"
proof (rule crawl_induct
        [where P = "\<lambda>W u d st r. \<forall>e \<in> set (fst r).
                      netloc W (fst e) = netloc W u \<and> netloc W (snd e) = netloc W u"
           and Q = "\<lambda>W ls d st r. \<forall>e \<in> set (fst r). \<exists>l \<in> set ls.
                      netloc W (fst e) = netloc W (fst l) \<and> netloc W (snd e) = netloc W (fst l)"])
  fix W :: world and u and st :: crawl_state and doc and others :: "edge list" and st2 :: crawl_state
  assume q: "\<forall>e \<in> set (fst (others, st2)). \<exists>l \<in> set (page_links W u st doc).
               netloc W (fst e) = netloc W (fst l) \<and> netloc W (snd e) = netloc W (fst l)"
  have own: "\<forall>l \<in> set (page_links W u st doc). netloc W (fst l) = netloc W u \<and> snd l = u"
    by (auto simp: set_page_links)
  show "\<forall>e \<in> set (fst (page_links W u st doc @ others, st2)).
          netloc W (fst e) = netloc W u \<and> netloc W (snd e) = netloc W u"
  proof
    fix e assume "e \<in> set (fst (page_links W u st doc @ others, st2))"
    then consider "e \<in> set (page_links W u st doc)" | "e \<in> set others" by auto
    then show "netloc W (fst e) = netloc W u \<and> netloc W (snd e) = netloc W u"
    proof cases
      case 1
      then show ?thesis using own by auto
    next
      case 2
      then obtain l where "l \<in> set (page_links W u st doc)"
        "netloc W (fst e) = netloc W (fst l)" "netloc W (snd e) = netloc W (fst l)"
        using q by auto
      then show ?thesis using own by auto
    qed
  qed
next
  fix W :: world and e :: edge and rest :: "edge list" and es1 es2 :: "edge list"
    and st1 st2 :: crawl_state
  assume p: "\<forall>x \<in> set (fst (es1, st1)).
               netloc W (fst x) = netloc W (fst e) \<and> netloc W (snd x) = netloc W (fst e)"
    and q: "\<forall>x \<in> set (fst (es2, st2)). \<exists>l \<in> set rest.
               netloc W (fst x) = netloc W (fst l) \<and> netloc W (snd x) = netloc W (fst l)"
  show "\<forall>x \<in> set (fst (es1 @ es2, st2)). \<exists>l \<in> set (e # rest).
          netloc W (fst x) = netloc W (fst l) \<and> netloc W (snd x) = netloc W (fst l)"
  proof
    fix x assume "x \<in> set (fst (es1 @ es2, st2))"
    then consider "x \<in> set es1" | "x \<in> set es2" by auto
    then show "\<exists>l \<in> set (e # rest).
                 netloc W (fst x) = netloc W (fst l) \<and> netloc W (snd x) = netloc W (fst l)"
    proof cases
      case 1
      then show ?thesis using p by simp
    next
      case 2
      then obtain l where "l \<in> set rest" "netloc W (fst x) = netloc W (fst l)"
        "netloc W (snd x) = netloc W (fst l)"
        using q by auto
      then show ?thesis by auto
    qed
  qed
qed (auto simp: set_page_links)

text \<open>The log keeps agreeing with the visited set: a URL is fetched when it is marked.\<close>

lemma fetch_log:
  "(log_ok st \<longrightarrow> log_ok (snd (extract_clickable_links_recursive W u d st))) \<and>
   (log_ok st' \<longrightarrow> log_ok (snd (expand_links W ls d' st')))"
  by (rule crawl_induct
        [where P = "\<lambda>W u d st r. log_ok st \<longrightarrow> log_ok (snd r)"
           and Q = "\<lambda>W ls d st r. log_ok st \<longrightarrow> log_ok (snd r)"])
     (auto simp: log_ok_def)

text \<open>The traversal stays within the reachable URLs.\<close>

lemma page_links_reachable:
  "u \<in> reachable W s \<Longrightarrow> http_get W u = Response 200 doc \<Longrightarrow>
   e \<in> set (page_links W u st doc) \<Longrightarrow> fst e \<in> reachable W s"
  by (auto simp: set_page_links intro: reachable.link)

lemma within_reach:
  "(visited st \<subseteq> reachable W s \<and> u \<in> reachable W s \<longrightarrow>
      visited (snd (extract_clickable_links_recursive W u d st)) \<subseteq> reachable W s \<and>
      fst ` set (fst (extract_clickable_links_recursive W u d st)) \<subseteq> reachable W s) \<and>
   (visited st' \<subseteq> reachable W s \<and> fst ` set ls \<subseteq> reachable W s \<longrightarrow>
      visited (snd (expand_links W ls d' st')) \<subseteq> reachable W s \<and>
      fst ` set (fst (expand_links W ls d' st')) \<subseteq> reachable W s)"
proof (rule crawl_induct
        [where P = "\<lambda>W u d st r. visited st \<subseteq> reachable W s \<and> u \<in> reachable W s \<longrightarrow>
                      visited (snd r) \<subseteq> reachable W s \<and> fst ` set (fst r) \<subseteq> reachable W s"
           and Q = "\<lambda>W ls d st r. visited st \<subseteq> reachable W s \<and> fst ` set ls \<subseteq> reachable W s \<longrightarrow>
                      visited (snd r) \<subseteq> reachable W s \<and> fst ` set (fst r) \<subseteq> reachable W s"])
  fix W :: world and u and st :: crawl_state and doc
  assume "http_get W u = Response 200 doc"
  then show "visited st \<subseteq> reachable W s \<and> u \<in> reachable W s \<longrightarrow>
          visited (snd (page_links W u st doc, enter u st)) \<subseteq> reachable W s \<and>
          fst ` set (fst (page_links W u st doc, enter u st)) \<subseteq> reachable W s"
    using page_links_reachable [of u W s doc _ st] by auto
next
  fix W :: world and u and d :: int and st :: crawl_state and doc and others :: "edge list"
    and st2 :: crawl_state
  assume "http_get W u = Response 200 doc"
    and "visited (enter u st) \<subseteq> reachable W s \<and>
           fst ` set (page_links W u st doc) \<subseteq> reachable W s \<longrightarrow>
         visited (snd (others, st2)) \<subseteq> reachable W s \<and>
           fst ` set (fst (others, st2)) \<subseteq> reachable W s"
  then show "visited st \<subseteq> reachable W s \<and> u \<in> reachable W s \<longrightarrow>
          visited (snd (page_links W u st doc @ others, st2)) \<subseteq> reachable W s \<and>
          fst ` set (fst (page_links W u st doc @ others, st2)) \<subseteq> reachable W s"
    using page_links_reachable [of u W s doc _ st] by auto
qed auto

text \<open>Every edge is a hyperlink of its parent.\<close>

lemma edges_from_pages:
  "(\<forall>e \<in> set (fst (extract_clickable_links_recursive W u d st)). from_page W e) \<and>
   (\<forall>e \<in> set (fst (expand_links W ls d' st')). from_page W e)"
  by (rule crawl_induct
        [where P = "\<lambda>W u d st r. \<forall>e \<in> set (fst r). from_page W e"
           and Q = "\<lambda>W ls d st r. \<forall>e \<in> set (fst r). from_page W e"])
     (auto simp: set_page_links from_page_def)

subsection \<open>The example site, evaluated\<close>

lemma ex_get_seed:
  "http_get (ex_site down maps) ''http://x/'' =
     Response 200 (empty_doc\<lparr>a_hrefs := [''/a'', ''/a'', ''/b'', ''/'', ''#top'', ''http://y/z''],
                             title_tag := Some ''Home''\<rparr>)"
  by (simp add: ex_site_def ex_get_def)

lemma ex_get_a:
  "http_get (ex_site False maps) ''http://x/a'' =
     Response 200 (empty_doc\<lparr>a_hrefs := [''/'', ''/b''], title_tag := Some ''A'',
                             h1_tag := Some ''Page A''\<rparr>)"
  by (simp add: ex_site_def ex_get_def)

lemma ex_get_b: "http_get (ex_site down maps) ''http://x/b'' = Response 404 empty_doc"
  by (simp add: ex_site_def ex_get_def)

lemma ex_get_c: "http_get (ex_site down maps) ''http://x/c'' = ConnError ''no route''"
  by (simp add: ex_site_def ex_get_def)

lemma ex_urljoin_site: "urljoin (ex_site down maps) = ex_urljoin"
  by (simp add: ex_site_def)

lemma ex_netloc_site: "netloc (ex_site down maps) = ex_netloc"
  by (simp add: ex_site_def)

lemma ex_crawl_0:
  "crawl (ex_site False True) ''http://x/'' 0 =
     ([(''http://x/a'', ''http://x/''), (''http://x/a'', ''http://x/''),
       (''http://x/b'', ''http://x/'')],
      \<lparr>visited = {''http://x/''}, fetched = [''http://x/'']\<rparr>)"
  by code_simp

lemma ex_crawl_2:
  "crawl (ex_site False True) ''http://x/'' 2 =
     ([(''http://x/a'', ''http://x/''), (''http://x/a'', ''http://x/''),
       (''http://x/b'', ''http://x/''), (''http://x/b'', ''http://x/a'')],
      \<lparr>visited = {''http://x/b'', ''http://x/a'', ''http://x/''},
       fetched = [''http://x/b'', ''http://x/a'', ''http://x/'']\<rparr>)"
  by code_simp

lemma ex_crawl_down:
  "fst (crawl (ex_site True True) ''http://x/'' 2) =
     [(''http://x/a'', ''http://x/''), (''http://x/a'', ''http://x/''),
      (''http://x/b'', ''http://x/''), (''http://x/b'', ''http://x/a''),
      (''http://x/c'', ''http://x/a'')]"
  by code_simp

lemma ex_get_a_down:
  "http_get (ex_site True maps) ''http://x/a'' =
     Response 200 (empty_doc\<lparr>a_hrefs := [''/'', ''/b'', ''/c''], title_tag := Some ''A'',
                             h1_tag := Some ''Page A''\<rparr>)"
  by (simp add: ex_site_def ex_get_def)

lemma ex_scan_maps:
  "scan_and_check_links (ex_site False True) ''http://x/'' 2 =
     Inr (Report
       [\<lparr>link = ''http://x/'', title = Some ''Home'', title_length = 4,
           meta_description = None, meta_description_length = 0,
           h1_title = None, canonical_url = None, breadcrumbs = None,
           in_sitemap = False\<rparr>,
        \<lparr>link = ''http://x/a'', title = Some ''A'', title_length = 1,
           meta_description = None, meta_description_length = 0,
           h1_title = Some ''Page A'', canonical_url = None,
           breadcrumbs = None, in_sitemap = True\<rparr>,
        \<lparr>link = ''http://x/b'', title = None, title_length = 0,
           meta_description = None, meta_description_length = 0,
           h1_title = None, canonical_url = None, breadcrumbs = None,
           in_sitemap = False\<rparr>]
       [(''http://x/b'', ''http://x/'', StatusCode 404),
        (''http://x/b'', ''http://x/a'', StatusCode 404)])"
  by code_simp

lemma ex_scan_nomaps:
  "scan_and_check_links (ex_site False False) ''http://x/'' 2 =
     Inr (Report
       [\<lparr>link = ''http://x/'', title = Some ''Home'', title_length = 4,
           meta_description = None, meta_description_length = 0,
           h1_title = None, canonical_url = None, breadcrumbs = None,
           in_sitemap = False\<rparr>,
        \<lparr>link = ''http://x/a'', title = Some ''A'', title_length = 1,
           meta_description = None, meta_description_length = 0,
           h1_title = Some ''Page A'', canonical_url = None,
           breadcrumbs = None, in_sitemap = False\<rparr>,
        \<lparr>link = ''http://x/b'', title = None, title_length = 0,
           meta_description = None, meta_description_length = 0,
           h1_title = None, canonical_url = None, breadcrumbs = None,
           in_sitemap = False\<rparr>]
       [(''http://x/b'', ''http://x/'', StatusCode 404),
        (''http://x/b'', ''http://x/a'', StatusCode 404)])"
  by code_simp

lemma ex_reachable:
  "reachable (ex_site False True) ''http://x/'' \<subseteq> {''http://x/'', ''http://x/a'', ''http://x/b''}"
proof
  fix u assume "u \<in> reachable (ex_site False True) ''http://x/''"
  then show "u \<in> {''http://x/'', ''http://x/a'', ''http://x/b''}"
  proof (induction rule: reachable.induct)
    case seed
    show ?case by simp
  next
    case (link u doc h)
    from link.IH consider "u = ''http://x/''" | "u = ''http://x/a''" | "u = ''http://x/b''"
      by auto
    then show ?case
    proof cases
      case 1
      with link.hyps(2)
      have "doc = empty_doc\<lparr>a_hrefs := [''/a'', ''/a'', ''/b'', ''/'', ''#top'', ''http://y/z''],
                             title_tag := Some ''Home''\<rparr>"
        by (simp add: ex_get_seed)
      with link.hyps(3) have "h \<in> {''/a'', ''/b'', ''/'', ''#top'', ''http://y/z''}"
        by (simp add: empty_doc_def)
      then consider "h = ''/a''" | "h = ''/b''" | "h = ''/''" | "h = ''#top''"
        | "h = ''http://y/z''"
        by blast
      then show ?thesis
      proof cases
        case 4
        with link.hyps(4) show ?thesis by simp
      next
        case 5
        with link.hyps(5) 1 show ?thesis
          by (simp add: ex_urljoin_site ex_netloc_site ex_urljoin_def ex_netloc_def)
      qed (simp_all add: ex_urljoin_site ex_urljoin_def)
    next
      case 2
      with link.hyps(2)
      have "doc = empty_doc\<lparr>a_hrefs := [''/'', ''/b''], title_tag := Some ''A'',
                             h1_tag := Some ''Page A''\<rparr>"
        by (simp add: ex_get_a)
      with link.hyps(3) have "h \<in> {''/'', ''/b''}"
        by (simp add: empty_doc_def)
      then consider "h = ''/''" | "h = ''/b''"
        by blast
      then show ?thesis
        by cases (simp_all add: ex_urljoin_site ex_urljoin_def)
    next
      case 3
      with link.hyps(2) show ?thesis by (simp add: ex_get_b)
    qed
  qed
qed

text \<open>The validator reads the world at the targets of the edges only.\<close>

lemma validator_reads_targets:
  "\<forall>e \<in> set es. http_get W' (fst e) = http_get W (fst e) \<Longrightarrow>
   check_for_error_links W' es = check_for_error_links W es"
  by (induction es) (auto split: response.splits)

section \<open>The claims about the crawl engine\<close>

text \<open>
  Claim C2. For every crawl and every edge (target, parent) of its output, the network
  location of the target and that of the parent both equal the network location of the
  seed: each call compares with the location of the page it is on, and that page was
  itself admitted under the location of its parent, so the scope never leaves the seed's.
\<close>

theorem edges_share_seed_netloc:
  "\<forall>e \<in> set (fst (crawl W seed max_depth)).
     netloc W (fst e) = netloc W seed \<and> netloc W (snd e) = netloc W seed"
  unfolding crawl_def using same_netloc by blast

theorem edges_share_seed_netloc_witness:
  "(''http://x/b'', ''http://x/a'') \<in> set (fst (crawl (ex_site False True) ''http://x/'' 2)) \<and>
   netloc (ex_site False True) ''http://x/b'' = netloc (ex_site False True) ''http://x/'' \<and>
   netloc (ex_site False True) ''http://x/a'' = netloc (ex_site False True) ''http://x/''"
proof -
  have m: "(''http://x/b'', ''http://x/a'') \<in> set (fst (crawl (ex_site False True) ''http://x/'' 2))"
    by (simp add: ex_crawl_2)
  from edges_share_seed_netloc [rule_format, OF m] m show ?thesis by simp
qed

text \<open>
  Claim C4. A crawl with maximum depth 0 returns exactly the edges (t, seed) for the links
  of the seed page (fragment-free, resolved, of the seed's network location and not the
  seed itself, which is already visited), once per hyperlink and in document order, and
  nothing when the seed does not answer 200. The seed is the only URL fetched: no target
  is expanded.
\<close>

theorem depth_zero_direct_edges:
  "crawl W seed 0 =
     ((case http_get W seed of
         ConnError e \<Rightarrow> []
       | Response status_code soup \<Rightarrow>
           if status_code = 200
           then map (\<lambda>h. (urljoin W seed h, seed))
                  (filter (\<lambda>h. CHR ''#'' \<notin> set h \<and> netloc W (urljoin W seed h) = netloc W seed \<and>
                             urljoin W seed h \<noteq> seed) (a_hrefs soup))
           else []),
      \<lparr>visited = {seed}, fetched = [seed]\<rparr>)"
  unfolding crawl_def
  by (subst extract_clickable_links_recursive.simps)
     (simp add: Let_def extract_links_eq split: response.splits)

theorem depth_zero_direct_edges_witness:
  "crawl (ex_site False True) ''http://x/'' 0 =
     ([(''http://x/a'', ''http://x/''), (''http://x/a'', ''http://x/''),
       (''http://x/b'', ''http://x/'')],
      \<lparr>visited = {''http://x/''}, fetched = [''http://x/'']\<rparr>)"
  using depth_zero_direct_edges [of "ex_site False True" "''http://x/''"]
  by (simp add: ex_get_seed ex_urljoin_site ex_netloc_site ex_urljoin_def ex_netloc_def
        empty_doc_def)

text \<open>
  Claim C5. Every crawl ends (the function is total: the depth falls with every nested
  call and each loop runs over a finite list), also on a cyclic site. The GETs of the
  traversal are pairwise distinct and are exactly the visited URLs, so their number is the
  size of the visited set; all of them are reachable from the seed, so that number is at
  most the number of reachable URLs when these are finitely many.
\<close>

theorem fetched_once_each:
  "distinct (fetched (snd (crawl W seed max_depth))) \<and>
   set (fetched (snd (crawl W seed max_depth))) = visited (snd (crawl W seed max_depth)) \<and>
   length (fetched (snd (crawl W seed max_depth))) = card (visited (snd (crawl W seed max_depth))) \<and>
   visited (snd (crawl W seed max_depth)) \<subseteq> reachable W seed \<and>
   (finite (reachable W seed) \<longrightarrow>
      length (fetched (snd (crawl W seed max_depth))) \<le> card (reachable W seed))"
proof -
  let ?st = "snd (crawl W seed max_depth)"
  have "log_ok \<lparr>visited = {}, fetched = []\<rparr>"
    by (simp add: log_ok_def)
  then have ok: "log_ok ?st"
    unfolding crawl_def using fetch_log by blast
  then have len: "length (fetched ?st) = card (visited ?st)"
    by (metis log_ok_def distinct_card)
  have sub: "visited ?st \<subseteq> reachable W seed"
    unfolding crawl_def
    using within_reach [of "\<lparr>visited = {}, fetched = []\<rparr>" W seed seed max_depth]
    by (simp add: reachable.seed)
  have "finite (reachable W seed) \<longrightarrow> length (fetched ?st) \<le> card (reachable W seed)"
    using len sub by (simp add: card_mono)
  with ok len sub show ?thesis by (simp add: log_ok_def)
qed

theorem fetched_once_each_witness:
  "finite (reachable (ex_site False True) ''http://x/'') \<and>
   length (fetched (snd (crawl (ex_site False True) ''http://x/'' 2))) = 3 \<and>
   3 \<le> card (reachable (ex_site False True) ''http://x/'')"
proof -
  have fin: "finite (reachable (ex_site False True) ''http://x/'')"
    using ex_reachable by (rule finite_subset) simp
  with fetched_once_each [of "ex_site False True" "''http://x/''" 2] show ?thesis
    by (simp add: ex_crawl_2)
qed

text \<open>
  Claim C10. No edge has the seed as its target: the seed is in the visited set before any
  link is read, and a link in the visited set is not recorded. So self-links and links
  back to the seed are not in the edge list, and the link validator, which fetches the
  targets of the edges and nothing else, never probes the seed.
\<close>

theorem seed_never_target:
  "seed \<notin> fst ` set (fst (crawl W seed max_depth)) \<and>
   ((\<forall>u. u \<noteq> seed \<longrightarrow> http_get W' u = http_get W u) \<longrightarrow>
      check_for_error_links W' (fst (crawl W seed max_depth)) =
      check_for_error_links W (fst (crawl W seed max_depth)))"
proof -
  have fresh: "\<forall>e \<in> set (fst (crawl W seed max_depth)). fst e \<noteq> seed"
    unfolding crawl_def using targets_fresh by blast
  then have "seed \<notin> fst ` set (fst (crawl W seed max_depth))"
    by auto
  moreover have "check_for_error_links W' (fst (crawl W seed max_depth)) =
      check_for_error_links W (fst (crawl W seed max_depth))"
    if "\<forall>u. u \<noteq> seed \<longrightarrow> http_get W' u = http_get W u"
    using that fresh by (intro validator_reads_targets) simp
  ultimately show ?thesis by blast
qed

theorem seed_never_target_witness:
  "''http://x/'' \<notin> fst ` set (fst (crawl (ex_site False True) ''http://x/'' 2)) \<and>
   http_get (seed_down (ex_site False True)) ''http://x/'' = ConnError ''down'' \<and>
   check_for_error_links (seed_down (ex_site False True))
       (fst (crawl (ex_site False True) ''http://x/'' 2)) =
     [(''http://x/b'', ''http://x/'', StatusCode 404),
      (''http://x/b'', ''http://x/a'', StatusCode 404)]"
proof -
  have same: "\<forall>u. u \<noteq> ''http://x/'' \<longrightarrow>
      http_get (seed_down (ex_site False True)) u = http_get (ex_site False True) u"
    by (simp add: seed_down_def)
  have "check_for_error_links (ex_site False True) (fst (crawl (ex_site False True) ''http://x/'' 2)) =
     [(''http://x/b'', ''http://x/'', StatusCode 404),
      (''http://x/b'', ''http://x/a'', StatusCode 404)]"
    by (simp add: ex_crawl_2 ex_get_a ex_get_b)
  with seed_never_target [of "''http://x/''" "ex_site False True" 2 "seed_down (ex_site False True)"]
    same
  show ?thesis by (simp add: seed_down_def)
qed

text \<open>
  Claim C7, as the code has it. Link extraction yields one edge for every fragment-free
  hyperlink that resolves to the network location of its page and is not yet visited, in
  document order and without removing duplicates; every edge of a crawl is such a
  hyperlink of its parent, and a target may be recorded by several edges. What happens at
  most once for a URL is its fetch.
\<close>

theorem edges_per_hyperlink:
  "extract_links W u vis hrefs =
     map (\<lambda>h. (urljoin W u h, u))
       (filter (\<lambda>h. CHR ''#'' \<notin> set h \<and> netloc W (urljoin W u h) = netloc W u \<and>
                  urljoin W u h \<notin> vis) hrefs) \<and>
   (\<forall>e \<in> set (fst (crawl W seed max_depth)). from_page W e) \<and>
   distinct (fetched (snd (crawl W seed max_depth)))"
proof -
  have "log_ok \<lparr>visited = {}, fetched = []\<rparr>"
    by (simp add: log_ok_def)
  then have "log_ok (snd (crawl W seed max_depth))"
    unfolding crawl_def using fetch_log by blast
  moreover have "\<forall>e \<in> set (fst (crawl W seed max_depth)). from_page W e"
    unfolding crawl_def using edges_from_pages by blast
  ultimately show ?thesis
    by (simp add: extract_links_eq log_ok_def)
qed

theorem edges_per_hyperlink_witness:
  "(''http://x/b'', ''http://x/a'') \<in> set (fst (crawl (ex_site False True) ''http://x/'' 2)) \<and>
   from_page (ex_site False True) (''http://x/b'', ''http://x/a'') \<and>
   distinct (fetched (snd (crawl (ex_site False True) ''http://x/'' 2)))"
proof -
  have m: "(''http://x/b'', ''http://x/a'') \<in> set (fst (crawl (ex_site False True) ''http://x/'' 2))"
    by (simp add: ex_crawl_2)
  from edges_per_hyperlink [of "ex_site False True" _ _ _ "''http://x/''" 2] m show ?thesis
    by blast
qed

theorem edges_not_deduplicated:
  "fst (crawl (ex_site False True) ''http://x/'' 0) =
     [(''http://x/a'', ''http://x/''), (''http://x/a'', ''http://x/''),
      (''http://x/b'', ''http://x/'')] \<and>
   \<not> distinct (fst (crawl (ex_site False True) ''http://x/'' 0)) \<and>
   \<not> distinct (map fst (fst (crawl (ex_site False True) ''http://x/'' 2)))"
  by (simp add: ex_crawl_0 ex_crawl_2)

section \<open>The claims about the link validator\<close>

lemma validator_map_filter:
  "check_for_error_links W links = List.map_filter (broken_record W) links"
proof (induction links)
  case Nil
  show ?case by (simp add: map_filter_simps)
next
  case (Cons e links)
  obtain l p where e: "e = (l, p)" by (cases e)
  have "broken_record W (l, p) =
          (case http_get W l of
             ConnError msg \<Rightarrow> Some (l, p, RequestError (''Request error: '' @ msg))
           | Response code doc \<Rightarrow> if code = 200 then None else Some (l, p, StatusCode code))"
    by (simp add: broken_record_def split: response.splits)
  then show ?case
    using Cons by (cases "http_get W l") (simp_all add: e map_filter_simps)
qed

lemma validator_filter:
  "map (\<lambda>r. (fst r, fst (snd r))) (check_for_error_links W links) =
     filter (\<lambda>e. case http_get W (fst e) of
                    ConnError msg \<Rightarrow> True
                  | Response code doc \<Rightarrow> code \<noteq> 200) links"
proof (induction links)
  case Nil
  show ?case by simp
next
  case (Cons e links)
  obtain l p where e: "e = (l, p)" by (cases e)
  show ?case
    using Cons by (cases "http_get W l") (simp_all add: e)
qed

text \<open>
  Claim C6. For every edge list, the validator gives exactly one record for each edge
  whose target does not answer 200 (status 404 recorded as 404, any other status with its
  code, a transport failure with a message) and none for a target that answers 200, in
  the order of the edges: its output is the edge list mapped through the record of one
  edge, dropping the healthy ones.
\<close>

theorem validator_records_broken_in_order:
  "check_for_error_links W links = List.map_filter (broken_record W) links \<and>
   map (\<lambda>r. (fst r, fst (snd r))) (check_for_error_links W links) =
     filter (\<lambda>e. case http_get W (fst e) of
                    ConnError msg \<Rightarrow> True
                  | Response code doc \<Rightarrow> code \<noteq> 200) links"
  by (intro conjI validator_map_filter validator_filter)

theorem validator_records_broken_in_order_witness:
  "check_for_error_links (ex_site True True)
     [(''http://x/a'', ''http://x/''), (''http://x/b'', ''http://x/''),
      (''http://x/c'', ''http://x/a'')] =
   [(''http://x/b'', ''http://x/'', StatusCode 404),
    (''http://x/c'', ''http://x/a'', RequestError ''Request error: no route'')]"
  using validator_records_broken_in_order [of "ex_site True True"
          "[(''http://x/a'', ''http://x/''), (''http://x/b'', ''http://x/''),
            (''http://x/c'', ''http://x/a'')]"]
  by (simp add: map_filter_simps broken_record_def ex_get_b ex_get_c ex_get_a_down)

section \<open>The claims about the sitemap resolver\<close>

lemma sitemap_doc_urls_Inr:
  "sitemap_doc_urls W u locs urls = Inr S \<Longrightarrow>
   S = urls \<union> {urljoin W u loc | loc. Some loc \<in> set locs}"
proof (induction W u locs urls rule: sitemap_doc_urls.induct)
  case (1 W base_url urls)
  then show ?case by simp
next
  case (2 W base_url rest urls)
  then show ?case by simp
next
  case (3 W base_url loc rest urls)
  from "3.IH" [OF "3.prems" [simplified]] show ?case by auto
qed

lemma probe_sitemaps_Inr:
  "probe_sitemaps W u sps all_urls = Inr S \<Longrightarrow>
   S = all_urls \<union>
       {urljoin W u loc | sp doc loc.
          sp \<in> set sps \<and> http_get W (urljoin W u sp) = Response 200 doc \<and>
          Some loc \<in> set (url_locs doc)}"
proof (induction sps arbitrary: all_urls)
  case Nil
  then show ?case by simp
next
  case (Cons sp sps)
  show ?case
  proof (cases "\<exists>doc. http_get W (urljoin W u sp) = Response 200 doc")
    case False
    then have "probe_sitemaps W u (sp # sps) all_urls = probe_sitemaps W u sps all_urls"
      by (auto split: response.splits)
    with Cons.prems have "probe_sitemaps W u sps all_urls = Inr S" by simp
    from Cons.IH [OF this] False show ?thesis by auto
  next
    case True
    then obtain doc where doc: "http_get W (urljoin W u sp) = Response 200 doc" ..
    with Cons.prems obtain urls where
      urls: "sitemap_doc_urls W u (url_locs doc) {} = Inr urls"
      and rest: "probe_sitemaps W u sps (all_urls \<union> urls) = Inr S"
      by (auto split: sum.splits)
    from sitemap_doc_urls_Inr [OF urls]
    have "urls = {urljoin W u loc | loc. Some loc \<in> set (url_locs doc)}" by simp
    with Cons.IH [OF rest] doc show ?thesis by auto
  qed
qed

lemma probe_sitemaps_none:
  "\<forall>sp \<in> set sps. \<forall>doc. http_get W (urljoin W u sp) \<noteq> Response 200 doc \<Longrightarrow>
   probe_sitemaps W u sps all_urls = Inr all_urls"
  by (induction sps) (auto split: response.splits)

lemma sitemap_paths_declared:
  "get_sitemap_urls W u = Inr S \<Longrightarrow> urlpath W ` S = declared_paths W u"
proof -
  assume "get_sitemap_urls W u = Inr S"
  then have "S = {urljoin W u loc | sp doc loc.
          sp \<in> set sitemap_paths \<and> http_get W (urljoin W u sp) = Response 200 doc \<and>
          Some loc \<in> set (url_locs doc)}"
    unfolding get_sitemap_urls_def using probe_sitemaps_Inr by fastforce
  then show ?thesis
    unfolding declared_paths_def by blast
qed

lemma link_make_entry [simp]: "link (make_entry W paths u md) = u"
  by (cases md) (simp add: make_entry_def)

lemma in_sitemap_make_entry [simp]:
  "in_sitemap (make_entry W paths u md) = (urlpath W u \<in> paths)"
  by (cases md) (simp add: make_entry_def)

lemma add_link_results_entries:
  "add_link_results W paths links rs = Inr rs' \<Longrightarrow> list_all (entry_ok W paths) (results rs) \<Longrightarrow>
   list_all (entry_ok W paths) (results rs')"
proof (induction links arbitrary: rs)
  case Nil
  then show ?case by simp
next
  case (Cons e links)
  show ?case
  proof (cases "fst e \<in> fst ` set (results rs)")
    case True
    with Cons.prems(1) have "add_link_results W paths links rs = Inr rs'"
      by simp
    from Cons.IH [OF this Cons.prems(2)] show ?thesis .
  next
    case False
    with Cons.prems(1) obtain md where md: "get_meta_data W (fst e) = Inr md"
      and rest: "add_link_results W paths links
                   (rs\<lparr>results := results rs @ [(fst e, make_entry W paths (fst e) md)],
                       extracted := fst e # extracted rs\<rparr>) = Inr rs'"
      by (auto simp: Let_def split: sum.splits)
    show ?thesis
      by (rule Cons.IH [OF rest]) (use Cons.prems(2) in \<open>simp add: entry_ok_def\<close>)
  qed
qed

lemma assemble_results_entries:
  "assemble_results W u links paths = Inr rs \<Longrightarrow> list_all (entry_ok W paths) (results rs)"
  unfolding assemble_results_def
  by (auto split: sum.splits intro!: add_link_results_entries [where rs' = rs]
        simp: entry_ok_def)

lemma scan_report:
  assumes "scan_and_check_links W u max_depth = Inr (Report pages broken)"
  obtains S rs where "get_sitemap_urls W u = Inr S"
    and "assemble_results W u (fst (crawl W u max_depth)) (urlpath W ` S) = Inr rs"
    and "pages = map snd (results rs)"
    and "broken = check_for_error_links W (fst (crawl W u max_depth))"
proof -
  have no: "on_exception err \<noteq> Inr (Report pages broken)" for err
    by (cases err) simp_all
  from assms show ?thesis
    unfolding scan_and_check_links_def
    by (auto simp: Let_def no split: response.splits if_splits sum.splits intro: that)
qed

text \<open>
  Claim C8. In every report, a page is marked in the sitemap exactly when its path is the
  path of a location that some sitemap probe answering 200 declares (resolved against the
  seed). A probe that does not answer 200, or does not answer at all, is skipped and
  contributes nothing; when all probes fail, the resolver returns the empty set without
  failing, no path is declared, and every page is marked false.
\<close>

theorem in_sitemap_iff_declared:
  "(scan_and_check_links W u max_depth = Inr (Report pages broken) \<longrightarrow>
      (\<forall>pm \<in> set pages. in_sitemap pm = (urlpath W (link pm) \<in> declared_paths W u))) \<and>
   (all_probes_fail W u \<longrightarrow>
      get_sitemap_urls W u = Inr {} \<and> declared_paths W u = {} \<and>
      (scan_and_check_links W u max_depth = Inr (Report pages broken) \<longrightarrow>
         (\<forall>pm \<in> set pages. \<not> in_sitemap pm)))"
proof -
  have marked: "\<forall>pm \<in> set pages. in_sitemap pm = (urlpath W (link pm) \<in> declared_paths W u)"
    if "scan_and_check_links W u max_depth = Inr (Report pages broken)"
    using that
  proof (rule scan_report)
    fix S rs
    assume S: "get_sitemap_urls W u = Inr S"
      and rs: "assemble_results W u (fst (crawl W u max_depth)) (urlpath W ` S) = Inr rs"
      and pages: "pages = map snd (results rs)"
    from assemble_results_entries [OF rs] sitemap_paths_declared [OF S] pages
    show ?thesis
      by (auto simp: list_all_iff entry_ok_def)
  qed
  have none: "get_sitemap_urls W u = Inr {} \<and> declared_paths W u = {}"
    if "all_probes_fail W u"
  proof -
    from that have "get_sitemap_urls W u = Inr {}"
      unfolding get_sitemap_urls_def all_probes_fail_def by (rule probe_sitemaps_none)
    with sitemap_paths_declared [of W u "{}"] show ?thesis by simp
  qed
  from marked none show ?thesis by auto
qed

theorem in_sitemap_iff_declared_witness:
  "scan_and_check_links (ex_site False True) ''http://x/'' 2 =
     Inr (Report
       [\<lparr>link = ''http://x/'', title = Some ''Home'', title_length = 4,
           meta_description = None, meta_description_length = 0,
           h1_title = None, canonical_url = None, breadcrumbs = None,
           in_sitemap = False\<rparr>,
        \<lparr>link = ''http://x/a'', title = Some ''A'', title_length = 1,
           meta_description = None, meta_description_length = 0,
           h1_title = Some ''Page A'', canonical_url = None,
           breadcrumbs = None, in_sitemap = True\<rparr>,
        \<lparr>link = ''http://x/b'', title = None, title_length = 0,
           meta_description = None, meta_description_length = 0,
           h1_title = None, canonical_url = None, breadcrumbs = None,
           in_sitemap = False\<rparr>]
       [(''http://x/b'', ''http://x/'', StatusCode 404),
        (''http://x/b'', ''http://x/a'', StatusCode 404)]) \<and>
   ''/a'' \<in> declared_paths (ex_site False True) ''http://x/'' \<and>
   ''/b'' \<notin> declared_paths (ex_site False True) ''http://x/'' \<and>
   all_probes_fail (ex_site False False) ''http://x/'' \<and>
   get_sitemap_urls (ex_site False False) ''http://x/'' = Inr {} \<and>
   scan_and_check_links (ex_site False False) ''http://x/'' 2 =
     Inr (Report
       [\<lparr>link = ''http://x/'', title = Some ''Home'', title_length = 4,
           meta_description = None, meta_description_length = 0,
           h1_title = None, canonical_url = None, breadcrumbs = None,
           in_sitemap = False\<rparr>,
        \<lparr>link = ''http://x/a'', title = Some ''A'', title_length = 1,
           meta_description = None, meta_description_length = 0,
           h1_title = Some ''Page A'', canonical_url = None,
           breadcrumbs = None, in_sitemap = False\<rparr>,
        \<lparr>link = ''http://x/b'', title = None, title_length = 0,
           meta_description = None, meta_description_length = 0,
           h1_title = None, canonical_url = None, breadcrumbs = None,
           in_sitemap = False\<rparr>]
       [(''http://x/b'', ''http://x/'', StatusCode 404),
        (''http://x/b'', ''http://x/a'', StatusCode 404)])"
proof -
  let ?W = "ex_site False True"
  let ?pa = "\<lparr>link = ''http://x/a'', title = Some ''A'', title_length = 1,
           meta_description = None, meta_description_length = 0,
           h1_title = Some ''Page A'', canonical_url = None,
           breadcrumbs = None, in_sitemap = True\<rparr>"
  let ?pb = "\<lparr>link = ''http://x/b'', title = None, title_length = 0,
           meta_description = None, meta_description_length = 0,
           h1_title = None, canonical_url = None, breadcrumbs = None,
           in_sitemap = False\<rparr>"
  note marked = in_sitemap_iff_declared [of ?W "''http://x/''" 2, THEN conjunct1,
         rule_format, OF ex_scan_maps]
  have "in_sitemap ?pa = (urlpath ?W (link ?pa) \<in> declared_paths ?W ''http://x/'')"
    by (rule marked) simp
  moreover have "urlpath ?W ''http://x/a'' = ''/a''"
    by (simp add: ex_site_def ex_urlpath_def)
  ultimately have a: "''/a'' \<in> declared_paths ?W ''http://x/''"
    by simp
  have "in_sitemap ?pb = (urlpath ?W (link ?pb) \<in> declared_paths ?W ''http://x/'')"
    by (rule marked) simp
  moreover have "urlpath ?W ''http://x/b'' = ''/b''"
    by (simp add: ex_site_def ex_urlpath_def)
  ultimately have b: "''/b'' \<notin> declared_paths ?W ''http://x/''"
    by simp
  have fail: "all_probes_fail (ex_site False False) ''http://x/''"
    by (simp add: all_probes_fail_def sitemap_paths_def ex_site_def ex_get_def ex_urljoin_def)
  from in_sitemap_iff_declared [of "ex_site False False" "''http://x/''", THEN conjunct2] fail
  have "get_sitemap_urls (ex_site False False) ''http://x/'' = Inr {}"
    by blast
  with a b fail show ?thesis
    by (simp only: ex_scan_maps ex_scan_nomaps simp_thms)
qed

section \<open>The claims about the report\<close>

text \<open>The loop over a list of edges is the loop over its first part, then over the rest.\<close>

lemma add_link_results_append:
  "add_link_results W paths (ls1 @ ls2) rs =
     (case add_link_results W paths ls1 rs of
        Inl err \<Rightarrow> Inl err
      | Inr rs1 \<Rightarrow> add_link_results W paths ls2 rs1)"
  by (induction ls1 arbitrary: rs) (simp_all add: Let_def split: sum.splits)

text \<open>
  The loop only appends: the entries it starts from stay as they are, in place. It adds
  one entry and one extraction for each URL that had none, and nothing else.
\<close>

lemma add_link_results_grows:
  "add_link_results W paths links rs = Inr rs' \<Longrightarrow>
   (\<exists>new. results rs' = results rs @ new) \<and>
   fst ` set (results rs') = fst ` set (results rs) \<union> fst ` set links \<and>
   (distinct (map fst (results rs)) \<longrightarrow> distinct (map fst (results rs'))) \<and>
   (rev (extracted rs) = map fst (results rs) \<longrightarrow> rev (extracted rs') = map fst (results rs'))"
proof (induction links arbitrary: rs)
  case Nil
  then show ?case by simp
next
  case (Cons e links)
  show ?case
  proof (cases "fst e \<in> fst ` set (results rs)")
    case True
    with Cons.prems have "add_link_results W paths links rs = Inr rs'" by simp
    from Cons.IH [OF this] True show ?thesis by auto
  next
    case False
    let ?mid = "\<lambda>md. rs\<lparr>results := results rs @ [(fst e, make_entry W paths (fst e) md)],
                         extracted := fst e # extracted rs\<rparr>"
    from False Cons.prems obtain md where
      rest: "add_link_results W paths links (?mid md) = Inr rs'"
      by (auto simp: Let_def split: sum.splits)
    have mid: "results (?mid md) = results rs @ [(fst e, make_entry W paths (fst e) md)]"
      "extracted (?mid md) = fst e # extracted rs"
      by simp_all
    from Cons.IH [OF rest] have
      1: "\<exists>new. results rs' = results (?mid md) @ new"
      and 2: "fst ` set (results rs') = fst ` set (results (?mid md)) \<union> fst ` set links"
      and 3: "distinct (map fst (results (?mid md))) \<longrightarrow> distinct (map fst (results rs'))"
      and 4: "rev (extracted (?mid md)) = map fst (results (?mid md)) \<longrightarrow>
              rev (extracted rs') = map fst (results rs')"
      by blast+
    from 1 have "\<exists>new. results rs' = results rs @ new"
      unfolding mid by auto
    moreover from 2 have "fst ` set (results rs') = fst ` set (results rs) \<union> fst ` set (e # links)"
      unfolding mid by auto
    moreover from 3 False
    have "distinct (map fst (results rs)) \<longrightarrow> distinct (map fst (results rs'))"
      unfolding mid by auto
    moreover from 4
    have "rev (extracted rs) = map fst (results rs) \<longrightarrow> rev (extracted rs') = map fst (results rs')"
      unfolding mid by auto
    ultimately show ?thesis by blast
  qed
qed

lemma assemble_results_prefix:
  assumes "assemble_results W u (ls1 @ ls2) paths = Inr rs"
  shows "\<exists>rs1 new. assemble_results W u ls1 paths = Inr rs1 \<and> results rs = results rs1 @ new"
proof -
  from assms obtain md where md: "get_meta_data W u = Inr md"
    and all: "add_link_results W paths (ls1 @ ls2)
                \<lparr>results = [(u, make_entry W paths u md)], extracted = [u]\<rparr> = Inr rs"
    unfolding assemble_results_def by (auto split: sum.splits)
  from all obtain rs1 where
    one: "add_link_results W paths ls1
            \<lparr>results = [(u, make_entry W paths u md)], extracted = [u]\<rparr> = Inr rs1"
    and two: "add_link_results W paths ls2 rs1 = Inr rs"
    by (auto simp: add_link_results_append split: sum.splits)
  from one md have "assemble_results W u ls1 paths = Inr rs1"
    by (simp add: assemble_results_def)
  with add_link_results_grows [OF two] show ?thesis by blast
qed

text \<open>
  Claim C9. The metadata of a report holds exactly one entry for every URL: the seed and
  the targets of the edges, each once however many edges lead to it. The extractor ran
  once for each entry, in the order of the entries, since an edge whose target already has
  an entry is skipped; and an entry, once made, is never changed: the entries after any
  first part of the edges are still the first entries of the report.
\<close>

theorem metadata_once_per_url:
  assumes "scan_and_check_links W u max_depth = Inr (Report pages broken)"
  shows "distinct (map link pages) \<and>
         set (map link pages) = insert u (fst ` set (fst (crawl W u max_depth))) \<and>
         (\<exists>paths rs.
            assemble_results W u (fst (crawl W u max_depth)) paths = Inr rs \<and>
            pages = map snd (results rs) \<and>
            rev (extracted rs) = map link pages \<and>
            (\<forall>ls1 ls2. fst (crawl W u max_depth) = ls1 @ ls2 \<longrightarrow>
               (\<exists>rs1 new. assemble_results W u ls1 paths = Inr rs1 \<and>
                  results rs = results rs1 @ new)))"
  using assms
proof (rule scan_report)
  fix S rs
  let ?links = "fst (crawl W u max_depth)"
  let ?paths = "urlpath W ` S"
  assume rs: "assemble_results W u ?links ?paths = Inr rs"
    and pages: "pages = map snd (results rs)"
  from rs obtain md where
    loop: "add_link_results W ?paths ?links
             \<lparr>results = [(u, make_entry W ?paths u md)], extracted = [u]\<rparr> = Inr rs"
    unfolding assemble_results_def by (auto split: sum.splits)
  have keys: "map link pages = map fst (results rs)"
    using assemble_results_entries [OF rs] pages
    by (induction "results rs" arbitrary: pages) (auto simp: list_all_iff entry_ok_def)
  have "distinct (map fst (results rs))"
    using add_link_results_grows [OF loop] by simp
  moreover have "fst ` set (results rs) = insert u (fst ` set ?links)"
    using add_link_results_grows [OF loop] by simp
  moreover have "rev (extracted rs) = map fst (results rs)"
    using add_link_results_grows [OF loop] by simp
  moreover have "\<forall>ls1 ls2. ?links = ls1 @ ls2 \<longrightarrow>
      (\<exists>rs1 new. assemble_results W u ls1 ?paths = Inr rs1 \<and> results rs = results rs1 @ new)"
    using rs assemble_results_prefix by metis
  ultimately show ?thesis
    using rs pages keys by (metis list.set_map)
qed

theorem metadata_once_per_url_witness:
  "map fst (fst (crawl (ex_site False True) ''http://x/'' 2)) =
     [''http://x/a'', ''http://x/a'', ''http://x/b'', ''http://x/b''] \<and>
   (\<exists>pages broken.
      scan_and_check_links (ex_site False True) ''http://x/'' 2 = Inr (Report pages broken) \<and>
      map link pages = [''http://x/'', ''http://x/a'', ''http://x/b''] \<and>
      distinct (map link pages) \<and>
      set (map link pages) =
        insert ''http://x/'' (fst ` set (fst (crawl (ex_site False True) ''http://x/'' 2))))"
proof -
  from metadata_once_per_url [OF ex_scan_maps]
  show ?thesis
    by (simp only: ex_crawl_2 ex_scan_maps) simp
qed

section \<open>The claims about the metadata extractor\<close>

lemma item_crumbs_dicts: "item_crumbs W (map JDict items) = Inr (map (item_crumb W) items)"
  by (induction items) simp_all

lemma script_crumbs_items:
  "holds_items s items \<Longrightarrow> script_crumbs W s = Inr (map (item_crumb W) items)"
  by (auto simp: holds_items_def item_crumbs_dicts)

lemma script_crumbs_skipped: "skipped s \<Longrightarrow> script_crumbs W s = Inr []"
  by (auto simp: skipped_def)

lemma script_crumbs_contributes:
  "contributes s items \<Longrightarrow> script_crumbs W s = Inr (map (item_crumb W) items)"
  by (auto simp: contributes_def script_crumbs_items script_crumbs_skipped)

lemma json_ld_crumbs_blocks:
  "list_all2 contributes scripts blocks \<Longrightarrow>
   json_ld_crumbs W scripts = Inr (map (item_crumb W) (concat blocks))"
  by (induction scripts blocks rule: list_all2_induct)
     (simp_all add: script_crumbs_contributes)

lemma holds_items_breadcrumb_list: "holds_items (breadcrumb_list items) items"
  by (simp add: holds_items_def breadcrumb_list_def dict_get_def)

lemma crumb_site_get:
  "http_get (crumb_site scripts) u = Response 200 (empty_doc\<lparr>json_ld_scripts := scripts\<rparr>)"
  by (simp add: crumb_site_def)

lemma item_crumb_1: "item_crumb W (crumb_item 1 ''A'' ''urlA'') = ''1: A (urlA)''"
  by code_simp

lemma item_crumb_2: "item_crumb W (crumb_item 2 ''B'' ''urlB'') = ''2: B (urlB)''"
  by code_simp

lemma item_crumb_3: "item_crumb W (crumb_item 3 ''C'' ''urlC'') = ''3: C (urlC)''"
  by code_simp

text \<open>
  Claim C3, as the code has it. For a page each of whose structured-data scripts is a
  valid BreadcrumbList, text that does not decode or an object of another type, the trail
  lists the items of the BreadcrumbLists in document order (the items of a list in the
  order of its \<open>itemListElement\<close>, the lists in page order), each formatted as
  position: name (url) with its own position field, joined with " > ", across all the
  lists of the page; the other scripts are skipped. The position field is printed, never
  sorted by: three items whose positions are 1, 2, 3 in document order give
  "1: A (urlA) > 2: B (urlB) > 3: C (urlC)". When the lists hold no item at all, the trail
  is that of the markup fallback.
\<close>

theorem breadcrumbs_in_document_order:
  assumes "http_get W u = Response status_code soup"
    and "list_all2 contributes (json_ld_scripts soup) blocks"
  shows "trail (get_meta_data W u) =
           (if concat blocks \<noteq> []
            then Some (join '' > '' (map (item_crumb W) (concat blocks)))
            else (case breadcrumb_container soup of
                    None \<Rightarrow> None
                  | Some breadcrumb_items \<Rightarrow>
                      if html_crumbs 1 breadcrumb_items \<noteq> []
                      then Some (join '' > '' (html_crumbs 1 breadcrumb_items))
                      else None))"
  using assms
  by (auto simp: trail_def get_meta_data_def Let_def json_ld_crumbs_blocks
        split: option.splits)

theorem breadcrumbs_in_document_order_witness:
  "trail (get_meta_data
      (crumb_site [breadcrumb_list [crumb_item 1 ''A'' ''urlA'', crumb_item 2 ''B'' ''urlB'',
                                    crumb_item 3 ''C'' ''urlC'']]) ''http://x/'') =
     Some ''1: A (urlA) > 2: B (urlB) > 3: C (urlC)'' \<and>
   trail (get_meta_data
      (crumb_site [Parsed (JDict [(''@type'', JStr ''Organization'')]), Malformed,
                   breadcrumb_list [crumb_item 1 ''A'' ''urlA'', crumb_item 2 ''B'' ''urlB''],
                   breadcrumb_list [crumb_item 3 ''C'' ''urlC'']]) ''http://x/'') =
     Some ''1: A (urlA) > 2: B (urlB) > 3: C (urlC)''"
proof -
  let ?org = "Parsed (JDict [(''@type'', JStr ''Organization'')])"
  let ?one = "[[crumb_item 1 ''A'' ''urlA'', crumb_item 2 ''B'' ''urlB'', crumb_item 3 ''C'' ''urlC'']]"
  let ?ab = "[crumb_item 1 ''A'' ''urlA'', crumb_item 2 ''B'' ''urlB'']"
  let ?c = "[crumb_item 3 ''C'' ''urlC'']"
  have org: "skipped ?org"
    by (simp add: skipped_def dict_get_def)
  have one: "list_all2 contributes
               (json_ld_scripts (empty_doc\<lparr>json_ld_scripts := map breadcrumb_list ?one\<rparr>)) ?one"
    by (simp add: contributes_def holds_items_breadcrumb_list)
  have mixed: "list_all2 contributes
               (json_ld_scripts (empty_doc\<lparr>json_ld_scripts :=
                  [?org, Malformed, breadcrumb_list ?ab, breadcrumb_list ?c]\<rparr>))
               [[], [], ?ab, ?c]"
    using org by (simp add: contributes_def holds_items_breadcrumb_list skipped_def)
  from breadcrumbs_in_document_order [OF crumb_site_get one]
       breadcrumbs_in_document_order [OF crumb_site_get mixed]
  show ?thesis
    by (simp add: item_crumb_1 item_crumb_2 item_crumb_3)
qed

text \<open>
  Three items whose positions are 2, 1, 3 in document order come out in document order,
  not in the order of their positions.
\<close>

theorem breadcrumbs_not_sorted_by_position:
  "trail (get_meta_data
      (crumb_site [breadcrumb_list [crumb_item 2 ''B'' ''urlB'', crumb_item 1 ''A'' ''urlA'',
                                    crumb_item 3 ''C'' ''urlC'']]) ''http://x/'') =
     Some ''2: B (urlB) > 1: A (urlA) > 3: C (urlC)'' \<and>
   trail (get_meta_data
      (crumb_site [breadcrumb_list [crumb_item 2 ''B'' ''urlB'', crumb_item 1 ''A'' ''urlA'',
                                    crumb_item 3 ''C'' ''urlC'']]) ''http://x/'') \<noteq>
     Some ''1: A (urlA) > 2: B (urlB) > 3: C (urlC)''"
  by code_simp

section \<open>The claims about failures\<close>

text \<open>
  Claim C1 at a failing input. On the example site with page c down, the seed answers 200
  and the crawl records the edge to c from page a. The traversal and the validator turn
  the transport failure of c into data, but the metadata extractor raises it, and the
  whole run ends in the top-level failure message with no report.
\<close>

theorem metadata_failure_aborts_run:
  "(\<exists>soup. http_get (ex_site True True) ''http://x/'' = Response 200 soup) \<and>
   (''http://x/c'', ''http://x/a'') \<in> set (fst (crawl (ex_site True True) ''http://x/'' 2)) \<and>
   (''http://x/c'', ''http://x/a'', RequestError ''Request error: no route'')
      \<in> set (check_for_error_links (ex_site True True)
               (fst (crawl (ex_site True True) ''http://x/'' 2))) \<and>
   get_meta_data (ex_site True True) ''http://x/c'' = Inl (RequestException ''no route'') \<and>
   scan_and_check_links (ex_site True True) ''http://x/'' 2 =
     Inr (ErrorMessage ''Error: no route'')"
proof -
  have "scan_and_check_links (ex_site True True) ''http://x/'' 2 =
     Inr (ErrorMessage ''Error: no route'')"
    by code_simp
  moreover have "get_meta_data (ex_site True True) ''http://x/c'' = Inl (RequestException ''no route'')"
    by (simp add: get_meta_data_def ex_get_c)
  moreover have "check_for_error_links (ex_site True True)
               (fst (crawl (ex_site True True) ''http://x/'' 2)) =
     [(''http://x/b'', ''http://x/'', StatusCode 404),
      (''http://x/b'', ''http://x/a'', StatusCode 404),
      (''http://x/c'', ''http://x/a'', RequestError ''Request error: no route'')]"
    by (simp add: ex_crawl_down ex_get_a_down ex_get_b ex_get_c)
  ultimately show ?thesis
    by (simp add: ex_get_seed ex_crawl_down)
qed

end
